theory Spec2Isabelle
  imports Main "HOL-Library.Word"
begin

section \<open>Python strings\<close>

text \<open>
  A Python \<^verbatim>\<open>str\<close> is a sequence of Unicode code points. Code points are natural
  numbers here, so that the OCR text, the paths and the file names built from both have one
  type. \<open>str\<close> turns an ASCII literal into that representation.
\<close>

type_synonym pystr = "nat list"

definition str :: "string \<Rightarrow> pystr" where
  "str s = map of_char s"

text \<open>The character class \<^verbatim>\<open>[A-Z]\<close> (no flags: the 26 ASCII capitals only).\<close>

definition is_upper :: "nat \<Rightarrow> bool" where
  "is_upper c = (65 \<le> c \<and> c \<le> 90)"

text \<open>The character class \<^verbatim>\<open>[0-9]\<close>, as the specification writes the digits.\<close>

definition is_ascii_digit :: "nat \<Rightarrow> bool" where
  "is_ascii_digit c = (48 \<le> c \<and> c \<le> 57)"

text \<open>
  The class \<^verbatim>\<open>\d\<close> of Python's \<^verbatim>\<open>re\<close> module on a \<^verbatim>\<open>str\<close> pattern: every
  character of the Unicode category Nd (decimal digit). The table lists the inclusive
  ranges of that category in the Unicode database of CPython 3.11 (Unicode 14.0); its first
  range is \<^verbatim>\<open>[0-9]\<close>.
\<close>

definition unicode_Nd :: "(nat \<times> nat) list" where
  "unicode_Nd =
    [(48, 57), (1632, 1641), (1776, 1785), (1984, 1993), (2406, 2415), (2534, 2543),
     (2662, 2671), (2790, 2799), (2918, 2927), (3046, 3055), (3174, 3183), (3302, 3311),
     (3430, 3439), (3558, 3567), (3664, 3673), (3792, 3801), (3872, 3881), (4160, 4169),
     (4240, 4249), (6112, 6121), (6160, 6169), (6470, 6479), (6608, 6617), (6784, 6793),
     (6800, 6809), (6992, 7001), (7088, 7097), (7232, 7241), (7248, 7257), (42528, 42537),
     (43216, 43225), (43264, 43273), (43472, 43481), (43504, 43513), (43600, 43609),
     (44016, 44025), (65296, 65305), (66720, 66729), (68912, 68921), (69734, 69743),
     (69872, 69881), (69942, 69951), (70096, 70105), (70384, 70393), (70736, 70745),
     (70864, 70873), (71248, 71257), (71360, 71369), (71472, 71481), (71904, 71913),
     (72016, 72025), (72784, 72793), (73040, 73049), (73120, 73129), (92768, 92777),
     (92864, 92873), (93008, 93017), (120782, 120831), (123200, 123209), (123632, 123641),
     (125264, 125273), (130032, 130041)]"

definition is_decimal_digit :: "nat \<Rightarrow> bool" where
  "is_decimal_digit c = list_ex (\<lambda>(lo, hi). lo \<le> c \<and> c \<le> hi) unicode_Nd"

section \<open>The PO token parser\<close>

text \<open>
  \<^verbatim>\<open>re.search(r'[A-Z]*PO\d+', ocr_text)\<close> runs a backtracking matcher at the start
  offsets 0, 1, 2, ... of the text and returns the first match. The three functions below are
  the three parts of the pattern, innermost first.

  \<open>match_digits\<close> is \<^verbatim>\<open>\d+\<close> at the end of the pattern: greedy, at least one digit.
\<close>

definition match_digits :: "pystr \<Rightarrow> pystr option" where
  "match_digits s =
     (let ds = takeWhile is_decimal_digit s in if ds = [] then None else Some ds)"

text \<open>The literal \<^verbatim>\<open>PO\<close> (code points 80 and 79) followed by \<^verbatim>\<open>\d+\<close>.\<close>

definition match_PO_digits :: "pystr \<Rightarrow> pystr option" where
  "match_PO_digits s =
     (case s of
        a # b # rest \<Rightarrow>
          if a = 80 \<and> b = 79 then map_option (\<lambda>ds. [80, 79] @ ds) (match_digits rest)
          else None
      | _ \<Rightarrow> None)"

text \<open>
  \<^verbatim>\<open>[A-Z]*\<close> is greedy: the matcher first takes the whole run of capitals and tries the
  rest of the pattern behind it; each time the rest fails it gives one capital back.
  \<open>match_upper_back k s\<close> tries the rest of the pattern after \<open>k\<close>, \<open>k - 1\<close>, ..., \<open>0\<close>
  capitals.
\<close>

fun match_upper_back :: "nat \<Rightarrow> pystr \<Rightarrow> pystr option" where
  "match_upper_back 0 s = match_PO_digits s"
| "match_upper_back (Suc k) s =
     (case match_PO_digits (drop (Suc k) s) of
        Some m \<Rightarrow> Some (take (Suc k) s @ m)
      | None \<Rightarrow> match_upper_back k s)"

definition match_at :: "pystr \<Rightarrow> pystr option" where
  "match_at s = match_upper_back (length (takeWhile is_upper s)) s"

fun re_search :: "pystr \<Rightarrow> pystr option" where
  "re_search [] = match_at []"
| "re_search (c # cs) =
     (case match_at (c # cs) of Some m \<Rightarrow> Some m | None \<Rightarrow> re_search cs)"

text \<open>
  \<^verbatim>\<open>get_PO_number_from_text\<close> of \<^verbatim>\<open>scannertest.py\<close>: the matched text, or
  \<^verbatim>\<open>None\<close>.
\<close>

definition get_PO_number_from_text :: "pystr \<Rightarrow> pystr option" where
  "get_PO_number_from_text ocr_text = re_search ocr_text"

subsection \<open>The parser as the specification words it\<close>

text \<open>
  \<open>po_token dig m\<close>: the whole of \<open>m\<close> is some capitals, then \<^verbatim>\<open>PO\<close>, then one or more
  characters of the digit class \<open>dig\<close>.
\<close>

definition po_token :: "(nat \<Rightarrow> bool) \<Rightarrow> pystr \<Rightarrow> bool" where
  "po_token dig m =
     (\<exists>k \<in> set [0..<length m].
        list_all is_upper (take k m) \<and> take 2 (drop k m) = [80, 79] \<and>
        drop (k + 2) m \<noteq> [] \<and> list_all dig (drop (k + 2) m))"

text \<open>
  The lengths of the tokens that start at the head of \<open>s\<close>, longest first.
\<close>

definition token_lengths :: "(nat \<Rightarrow> bool) \<Rightarrow> pystr \<Rightarrow> nat list" where
  "token_lengths dig s = filter (\<lambda>n. po_token dig (take n s)) (rev [0..<Suc (length s)])"

text \<open>
  The leftmost match: the first start offset at which a token begins and, there, the longest
  token.
\<close>

fun leftmost_match :: "(nat \<Rightarrow> bool) \<Rightarrow> pystr \<Rightarrow> pystr option" where
  "leftmost_match dig [] = None"
| "leftmost_match dig (c # cs) =
     (case token_lengths dig (c # cs) of
        n # _ \<Rightarrow> Some (take n (c # cs))
      | [] \<Rightarrow> leftmost_match dig cs)"

text \<open>The parser of the specification: the leftmost match of \<^verbatim>\<open>[A-Z]*PO[0-9]+\<close>.\<close>

definition spec_parser :: "pystr \<Rightarrow> pystr option" where
  "spec_parser s = leftmost_match is_ascii_digit s"

section \<open>Paths and file names\<close>

text \<open>
  \<^verbatim>\<open>str.lower()\<close>. The capitals \<^verbatim>\<open>A-Z\<close> go to \<^verbatim>\<open>a-z\<close>; every other code point is
  left as it is. Python also lowers capitals outside ASCII, but none of them becomes one of
  the characters \<^verbatim>\<open>.\<close>, \<^verbatim>\<open>p\<close>, \<^verbatim>\<open>n\<close>, \<^verbatim>\<open>g\<close>, which is all the program asks
  of a lowered path.
\<close>

definition lower :: "pystr \<Rightarrow> pystr" where
  "lower s = map (\<lambda>c. if 65 \<le> c \<and> c \<le> 90 then c + 32 else c) s"

definition endswith :: "pystr \<Rightarrow> pystr \<Rightarrow> bool" where
  "endswith s suffix =
     (length suffix \<le> length s \<and> drop (length s - length suffix) s = suffix)"

text \<open>
  \<^verbatim>\<open>os.path\<close> in its POSIX form; \<^verbatim>\<open>/\<close> is code point 47 and \<^verbatim>\<open>.\<close> is 46.
  \<^verbatim>\<open>basename\<close> is what follows the last separator.
\<close>

definition basename :: "pystr \<Rightarrow> pystr" where
  "basename p = rev (takeWhile (\<lambda>c. c \<noteq> 47) (rev p))"

text \<open>
  \<^verbatim>\<open>splitext\<close>: the extension starts at the last dot of the base name, if a character
  other than a dot comes before that dot in the base name; otherwise it is empty.
\<close>

definition splitext :: "pystr \<Rightarrow> pystr \<times> pystr" where
  "splitext p =
     (let name = basename p;
          tail = rev (takeWhile (\<lambda>c. c \<noteq> 46) (rev name));
          stem = take (length name - Suc (length tail)) name
      in if 46 \<in> set name \<and> list_ex (\<lambda>c. c \<noteq> 46) stem
         then (take (length p - Suc (length tail)) p, 46 # tail)
         else (p, []))"

definition join :: "pystr \<Rightarrow> pystr \<Rightarrow> pystr" where
  "join a b =
     (if take 1 b = [47] then b
      else if a = [] \<or> endswith a [47] then a @ b
      else a @ [47] @ b)"

text \<open>
  \<^verbatim>\<open>uuid.uuid4().hex\<close>: the 128 bits of the identifier as 32 lowercase hexadecimal
  digits, most significant first.
\<close>

definition hex_digit :: "nat \<Rightarrow> nat" where
  "hex_digit n = (if n < 10 then 48 + n else 87 + n)"

definition uuid_hex :: "128 word \<Rightarrow> pystr" where
  "uuid_hex u = map (\<lambda>i. hex_digit (unat (and (drop_bit (4 * (31 - i)) u) 15))) [0..<32]"

section \<open>The world the handler runs in\<close>

text \<open>
  Exceptions, by what the handlers of the program tell apart: \<^verbatim>\<open>PermissionError\<close>, any
  other \<^verbatim>\<open>OSError\<close> (\<^verbatim>\<open>IOError\<close> is the same class), and any other
  \<^verbatim>\<open>Exception\<close>. What is not an \<^verbatim>\<open>Exception\<close> (\<^verbatim>\<open>KeyboardInterrupt\<close>,
  \<^verbatim>\<open>SystemExit\<close>) is left out.
\<close>

datatype exn = PermissionError | OtherOSError | OtherException

definition is_IOError :: "exn \<Rightarrow> bool" where
  "is_IOError e = (e = PermissionError \<or> e = OtherOSError)"

datatype level = INFO | WARNING | ERROR

datatype msg =
    NewFileDetected pystr
  | WaitingForAccess pystr
  | WaitingForWrite pystr
  | ExtractedPO pystr
  | NotExtracted
  | PermissionErrorProcessing pystr exn
  | UnsupportedFormat pystr
  | CreatedFinishedDirectory pystr
  | RenamedAndMoved pystr pystr
  | CreatedErrorDirectory pystr
  | NoPOMoved pystr
  | ImageLocked pystr nat nat
  | MaxRetriesReached pystr
  | OCRRawOutput pystr
  | POFound pystr pystr
  | NoPOFound pystr
  | ErrorProcessingImage pystr exn

type_synonym image = "nat list"

text \<open>
  The state: the regular files with their bytes, the directories, the log (oldest entry
  first), the seconds spent in \<^verbatim>\<open>time.sleep\<close>, the number of \<^verbatim>\<open>Image.open\<close> calls
  and the images handed to the OCR engine. Only the handler changes the files.
\<close>

record world =
  files :: "pystr \<rightharpoonup> nat list"
  dirs :: "pystr set"
  log :: "(level \<times> msg) list"
  slept :: nat
  image_opens :: nat
  ocr_calls :: "image list"

text \<open>
  What the handler cannot decide itself while it serves one event: whether the \<open>n\<close>-th
  \<^verbatim>\<open>open(file_path, 'a')\<close> succeeds (it raises an \<^verbatim>\<open>IOError\<close> otherwise), what the
  \<open>n\<close>-th \<^verbatim>\<open>Image.open\<close> and \<^verbatim>\<open>load\<close> give, what the OCR engine returns for an image,
  the random identifier, and whether \<^verbatim>\<open>os.makedirs\<close> and \<^verbatim>\<open>shutil.move\<close> raise.
\<close>

record env =
  open_append :: "nat \<Rightarrow> bool"
  image_load :: "nat \<Rightarrow> exn + image"
  image_to_string :: "image \<Rightarrow> exn + pystr"
  uuid4 :: "128 word"
  makedirs_error :: "exn option"
  move_error :: "exn option"

record handler =
  parent_directory :: pystr
  finished_directory :: pystr
  error_directory :: pystr

record event =
  is_directory :: bool
  src_path :: pystr

definition logging :: "level \<Rightarrow> msg \<Rightarrow> world \<Rightarrow> world" where
  "logging l m w = w\<lparr>log := log w @ [(l, m)]\<rparr>"

definition sleep :: "nat \<Rightarrow> world \<Rightarrow> world" where
  "sleep n w = w\<lparr>slept := slept w + n\<rparr>"

definition exists :: "world \<Rightarrow> pystr \<Rightarrow> bool" where
  "exists w p = (p \<in> dirs w \<or> files w p \<noteq> None)"

definition makedirs :: "env \<Rightarrow> pystr \<Rightarrow> world \<Rightarrow> (exn + unit) \<times> world" where
  "makedirs en d w =
     (case makedirs_error en of
        Some e \<Rightarrow> (Inl e, w)
      | None \<Rightarrow> (Inr (), w\<lparr>dirs := insert d (dirs w)\<rparr>))"

text \<open>
  \<^verbatim>\<open>shutil.move(src, dst)\<close> for a destination that is not a directory: one step that
  takes the file from \<open>src\<close> and puts its bytes at \<open>dst\<close>, replacing what was there; a
  missing source is a \<^verbatim>\<open>FileNotFoundError\<close>. A move that raises leaves the files as they
  were.
\<close>

definition move :: "env \<Rightarrow> pystr \<Rightarrow> pystr \<Rightarrow> world \<Rightarrow> (exn + unit) \<times> world" where
  "move en src dst w =
     (case move_error en of
        Some e \<Rightarrow> (Inl e, w)
      | None \<Rightarrow>
          (case files w src of
             None \<Rightarrow> (Inl OtherOSError, w)
           | Some b \<Rightarrow> (Inr (), w\<lparr>files := ((files w)(src := None))(dst \<mapsto> b)\<rparr>)))"

section \<open>The extractor of \<^verbatim>\<open>scannertest.py\<close>\<close>

text \<open>
  The loop \<^verbatim>\<open>for tries in range(file_access_tries)\<close>: the list holds the values of
  \<open>tries\<close> still to come, \<open>cur\<close> is the value \<open>tries\<close> has now. The result is the value
  of \<open>tries\<close> after the loop and the image, if one was bound. An \<^verbatim>\<open>IOError\<close> is logged,
  followed by a second of sleep and the next round; any other exception leaves the loop.
\<close>

fun image_open_loop ::
  "env \<Rightarrow> pystr \<Rightarrow> nat \<Rightarrow> nat \<Rightarrow> nat list \<Rightarrow> world \<Rightarrow> (exn + nat \<times> image option) \<times> world" where
  "image_open_loop en image_path file_access_tries cur [] w = (Inr (cur, None), w)"
| "image_open_loop en image_path file_access_tries cur (tries # rest) w =
     (let w1 = w\<lparr>image_opens := Suc (image_opens w)\<rparr> in
      case image_load en tries of
        Inr img \<Rightarrow> (Inr (tries, Some img), w1)
      | Inl e \<Rightarrow>
          if is_IOError e
          then image_open_loop en image_path file_access_tries tries rest
                 (sleep 1 (logging INFO (ImageLocked image_path (tries + 1) file_access_tries) w1))
          else (Inl e, w1))"

text \<open>
  The body of the outer \<^verbatim>\<open>try\<close>. After the loop \<open>tries = file_access_tries - 1\<close> ends the
  function; otherwise the image goes to the OCR engine and the pattern is searched in its
  text. Reading \<open>img\<close> while it is unbound would be a \<^verbatim>\<open>NameError\<close>.
\<close>

definition extract_try :: "env \<Rightarrow> pystr \<Rightarrow> world \<Rightarrow> (exn + pystr option) \<times> world" where
  "extract_try en image_path w =
     (let file_access_tries = 5 in
      case image_open_loop en image_path file_access_tries 0 [0..<file_access_tries] w of
        (Inl e, w1) \<Rightarrow> (Inl e, w1)
      | (Inr (tries, img), w1) \<Rightarrow>
          if tries = file_access_tries - 1
          then (Inr None, logging ERROR (MaxRetriesReached image_path) w1)
          else
            (case img of
               None \<Rightarrow> (Inl OtherException, w1)
             | Some im \<Rightarrow>
                 (let w2 = w1\<lparr>ocr_calls := ocr_calls w1 @ [im]\<rparr> in
                  case image_to_string en im of
                    Inl e \<Rightarrow> (Inl e, w2)
                  | Inr ocr_result \<Rightarrow>
                      (Inr (re_search ocr_result), logging INFO (OCRRawOutput ocr_result) w2))))"

text \<open>\<^verbatim>\<open>except Exception as e\<close>: every exception of the body is logged and becomes \<^verbatim>\<open>None\<close>.\<close>

definition extract_po_number_from_image ::
  "env \<Rightarrow> pystr \<Rightarrow> world \<Rightarrow> (exn + pystr option) \<times> world" where
  "extract_po_number_from_image en image_path w =
     (case extract_try en image_path w of
        (Inl e, w1) \<Rightarrow> (Inr None, logging ERROR (ErrorProcessingImage image_path e) w1)
      | (Inr r, w1) \<Rightarrow> (Inr r, w1))"


section \<open>The handler of \<^verbatim>\<open>scannertest.py\<close>\<close>

text \<open>
  Both filing methods begin with the same three lines: if the directory does not exist,
  create it and log that.
\<close>

definition ensure_directory :: "env \<Rightarrow> pystr \<Rightarrow> msg \<Rightarrow> world \<Rightarrow> (exn + unit) \<times> world" where
  "ensure_directory en d created w =
     (if \<not> exists w d
      then (case makedirs en d w of
              (Inl e, w1) \<Rightarrow> (Inl e, w1)
            | (Inr u, w1) \<Rightarrow> (Inr u, logging INFO created w1))
      else (Inr (), w))"

definition rename_and_move ::
  "env \<Rightarrow> handler \<Rightarrow> pystr \<Rightarrow> pystr \<Rightarrow> world \<Rightarrow> (exn + unit) \<times> world" where
  "rename_and_move en self file_path po_number w =
     (let file_extension = snd (splitext file_path);
          new_file_name = po_number @ str ''_'' @ take 6 (uuid_hex (uuid4 en)) @ file_extension;
          destination_path = join (finished_directory self) new_file_name
      in case ensure_directory en (finished_directory self)
                (CreatedFinishedDirectory (finished_directory self)) w of
           (Inl e, w1) \<Rightarrow> (Inl e, w1)
         | (Inr u, w1) \<Rightarrow>
             (case move en file_path destination_path w1 of
                (Inl e, w2) \<Rightarrow> (Inl e, w2)
              | (Inr u, w2) \<Rightarrow>
                  (Inr (), logging INFO (RenamedAndMoved new_file_name destination_path) w2)))"

definition handle_no_po_numbers ::
  "env \<Rightarrow> handler \<Rightarrow> pystr \<Rightarrow> world \<Rightarrow> (exn + unit) \<times> world" where
  "handle_no_po_numbers en self file_path w =
     (case ensure_directory en (error_directory self)
             (CreatedErrorDirectory (error_directory self)) w of
        (Inl e, w1) \<Rightarrow> (Inl e, w1)
      | (Inr u, w1) \<Rightarrow>
          (let error_file_path = join (error_directory self) (basename file_path) in
           case move en file_path error_file_path w1 of
             (Inl e, w2) \<Rightarrow> (Inl e, w2)
           | (Inr u, w2) \<Rightarrow> (Inr (), logging WARNING (NoPOMoved error_file_path) w2)))"

text \<open>
  The two destinations, as \<^verbatim>\<open>rename_and_move\<close> and \<^verbatim>\<open>handle_no_po_numbers\<close>
  compute them in their local variables of the same names.
\<close>

definition destination_path :: "env \<Rightarrow> handler \<Rightarrow> pystr \<Rightarrow> pystr \<Rightarrow> pystr" where
  "destination_path en self file_path po_number =
     join (finished_directory self)
       (po_number @ str ''_'' @ take 6 (uuid_hex (uuid4 en)) @ snd (splitext file_path))"

definition error_file_path :: "handler \<Rightarrow> pystr \<Rightarrow> pystr" where
  "error_file_path self file_path = join (error_directory self) (basename file_path)"

text \<open>
  The loop \<^verbatim>\<open>while True\<close> of \<^verbatim>\<open>on_created\<close>; \<open>n\<close> counts the attempts made so far.
  An \<^verbatim>\<open>open(file_path, 'a')\<close> that succeeds leaves the loop (and has created the file,
  empty, if it was not there); one that raises is logged, followed by two seconds of sleep
  and the next attempt. The loop has no other exit, so it may run forever: the value is
  \<open>None\<close> then.
\<close>

definition opened_for_append :: "pystr \<Rightarrow> world \<Rightarrow> world" where
  "opened_for_append file_path w =
     (if files w file_path = None then w\<lparr>files := (files w)(file_path \<mapsto> [])\<rparr> else w)"

definition access_retry :: "pystr \<Rightarrow> world \<Rightarrow> world" where
  "access_retry file_path w = sleep 2 (logging INFO (WaitingForAccess file_path) w)"

partial_function (option) wait_for_access :: "env \<Rightarrow> pystr \<Rightarrow> nat \<Rightarrow> world \<Rightarrow> world option" where
  "wait_for_access en file_path n w =
     (if open_append en n then Some (opened_for_append file_path w)
      else wait_for_access en file_path (Suc n) (access_retry file_path w))"

text \<open>
  The statement \<^verbatim>\<open>if po_number: ... else: ...\<close> of \<^verbatim>\<open>on_created\<close>, the same in both
  variants: a result that is not \<^verbatim>\<open>None\<close> and not the empty string goes to
  \<^verbatim>\<open>rename_and_move\<close>, any other to \<^verbatim>\<open>handle_no_po_numbers\<close>.
\<close>

definition file_by_result ::
  "env \<Rightarrow> handler \<Rightarrow> pystr \<Rightarrow> pystr option \<Rightarrow> world \<Rightarrow> (exn + unit) \<times> world" where
  "file_by_result en self file_path po w =
     (case po of
        Some po_number \<Rightarrow>
          if po_number \<noteq> []
          then rename_and_move en self file_path po_number
                 (logging INFO (ExtractedPO po_number) w)
          else handle_no_po_numbers en self file_path (logging INFO NotExtracted w)
      | None \<Rightarrow> handle_no_po_numbers en self file_path (logging INFO NotExtracted w))"

text \<open>
  The \<^verbatim>\<open>try\<close> statement of \<^verbatim>\<open>on_created\<close>: extraction, then filing;
  \<^verbatim>\<open>except PermissionError\<close> logs that exception and goes on, any other exception leaves
  the handler.
\<close>

definition process_image :: "env \<Rightarrow> handler \<Rightarrow> pystr \<Rightarrow> world \<Rightarrow> (exn + unit) \<times> world" where
  "process_image en self file_path w =
     (let tried =
            (case extract_po_number_from_image en file_path w of
               (Inl e, w1) \<Rightarrow> (Inl e, w1)
             | (Inr po, w1) \<Rightarrow> file_by_result en self file_path po w1)
      in case tried of
           (Inl e, w2) \<Rightarrow>
             if e = PermissionError
             then (Inr (), logging ERROR (PermissionErrorProcessing file_path e) w2)
             else (Inl e, w2)
         | (Inr u, w2) \<Rightarrow> (Inr u, w2))"

text \<open>
  \<^verbatim>\<open>on_created\<close>. \<open>None\<close>: the handler never returns. \<open>Some (Inl e, w)\<close>: the exception
  \<open>e\<close> leaves the handler. \<open>Some (Inr (), w)\<close>: the handler returns.
\<close>

definition on_created :: "env \<Rightarrow> handler \<Rightarrow> event \<Rightarrow> world \<Rightarrow> ((exn + unit) \<times> world) option" where
  "on_created en self ev w =
     (if \<not> is_directory ev then
        (let file_path = src_path ev;
             w1 = sleep 3 (logging INFO (NewFileDetected file_path) w)
         in case wait_for_access en file_path 0 w1 of
              None \<Rightarrow> None
            | Some w2 \<Rightarrow>
                Some (if endswith (lower file_path) (str ''.png'')
                      then process_image en self file_path w2
                      else (Inr (), logging WARNING (UnsupportedFormat file_path) w2)))
      else Some (Inr (), w))"

section \<open>The handler of \<^verbatim>\<open>scanner.py\<close>\<close>

text \<open>
  The earlier variant differs in three places: the pattern is \<^verbatim>\<open>PO\d+\<close>, the image is
  opened once, and \<^verbatim>\<open>on_created\<close> waits for the file to exist and to be non-empty and has
  no \<^verbatim>\<open>try\<close>. Its two filing methods are those above, word for word.
\<close>

fun re_search_PO :: "pystr \<Rightarrow> pystr option" where
  "re_search_PO [] = match_PO_digits []"
| "re_search_PO (c # cs) =
     (case match_PO_digits (c # cs) of Some m \<Rightarrow> Some m | None \<Rightarrow> re_search_PO cs)"

definition scanner_extract_try :: "env \<Rightarrow> pystr \<Rightarrow> world \<Rightarrow> (exn + pystr option) \<times> world" where
  "scanner_extract_try en image_path w =
     (let w1 = w\<lparr>image_opens := Suc (image_opens w)\<rparr> in
      case image_load en 0 of
        Inl e \<Rightarrow> (Inl e, w1)
      | Inr img \<Rightarrow>
          (let w2 = w1\<lparr>ocr_calls := ocr_calls w1 @ [img]\<rparr> in
           case image_to_string en img of
             Inl e \<Rightarrow> (Inl e, w2)
           | Inr ocr_result \<Rightarrow>
               (case re_search_PO ocr_result of
                  Some m \<Rightarrow> (Inr (Some m), logging INFO (POFound m image_path) w2)
                | None \<Rightarrow> (Inr None, logging WARNING (NoPOFound image_path) w2))))"

definition scanner_extract_po_number_from_image ::
  "env \<Rightarrow> pystr \<Rightarrow> world \<Rightarrow> (exn + pystr option) \<times> world" where
  "scanner_extract_po_number_from_image en image_path w =
     (case scanner_extract_try en image_path w of
        (Inl e, w1) \<Rightarrow> (Inr None, logging ERROR (ErrorProcessingImage image_path e) w1)
      | (Inr r, w1) \<Rightarrow> (Inr r, w1))"

text \<open>
  \<^verbatim>\<open>while not os.path.exists(file_path) or (os.path.isfile(file_path) and
  os.stat(file_path).st_size == 0)\<close>: nothing in the loop changes the files, so it ends at
  once or never.
\<close>

definition not_written :: "world \<Rightarrow> pystr \<Rightarrow> bool" where
  "not_written w file_path = (\<not> exists w file_path \<or> files w file_path = Some [])"

partial_function (option) scanner_wait :: "pystr \<Rightarrow> world \<Rightarrow> world option" where
  "scanner_wait file_path w =
     (if not_written w file_path
      then scanner_wait file_path (sleep 1 (logging INFO (WaitingForWrite file_path) w))
      else Some w)"

text \<open>
  The branch of \<^verbatim>\<open>on_created\<close> for a PNG file: extraction, then filing, with no
  \<^verbatim>\<open>try\<close> around them.
\<close>

definition scanner_process_image ::
  "env \<Rightarrow> handler \<Rightarrow> pystr \<Rightarrow> world \<Rightarrow> (exn + unit) \<times> world" where
  "scanner_process_image en self file_path w =
     (case scanner_extract_po_number_from_image en file_path w of
        (Inl e, w1) \<Rightarrow> (Inl e, w1)
      | (Inr po, w1) \<Rightarrow> file_by_result en self file_path po w1)"

definition scanner_on_created ::
  "env \<Rightarrow> handler \<Rightarrow> event \<Rightarrow> world \<Rightarrow> ((exn + unit) \<times> world) option" where
  "scanner_on_created en self ev w =
     (if \<not> is_directory ev then
        (let file_path = src_path ev;
             w1 = logging INFO (NewFileDetected file_path) w
         in case scanner_wait file_path w1 of
              None \<Rightarrow> None
            | Some w2 \<Rightarrow>
                Some (if endswith (lower file_path) (str ''.png'')
                      then scanner_process_image en self file_path w2
                      else (Inr (), logging WARNING (UnsupportedFormat file_path) w2)))
      else Some (Inr (), w))"

section \<open>A concrete run\<close>

text \<open>
  The directories of the main program under the root \<^verbatim>\<open>/renamescans\<close>, one scanned
  file in the intake directory, and an environment in which nothing fails and the OCR engine
  reads \<^verbatim>\<open>Invoice for PO904821\<close>.
\<close>

definition h0 :: handler where
  "h0 = \<lparr>parent_directory = str ''/renamescans'',
         finished_directory = str ''/renamescans/wavesfinished'',
         error_directory = str ''/renamescans/wavesfinished/UncapturedPO''\<rparr>"

definition scan_path :: pystr where
  "scan_path = str ''/renamescans/waves/scan1.png''"

definition scan_bytes :: "nat list" where
  "scan_bytes = [137, 80, 78, 71]"

definition w0 :: world where
  "w0 = \<lparr>files = [scan_path \<mapsto> scan_bytes],
         dirs = {str ''/renamescans'', str ''/renamescans/waves'',
                 str ''/renamescans/wavesfinished'',
                 str ''/renamescans/wavesfinished/UncapturedPO''},
         log = [], slept = 0, image_opens = 0, ocr_calls = []\<rparr>"


definition env0 :: env where
  "env0 = \<lparr>open_append = (\<lambda>n. True), image_load = (\<lambda>n. Inr [1, 2, 3]),
           image_to_string = (\<lambda>im. Inr (str ''Invoice for PO904821'')),
           uuid4 = 0x3f2a9c00000000000000000000000000,
           makedirs_error = None, move_error = None\<rparr>"


definition env_fifth :: env where
  "env_fifth = env0\<lparr>image_load := (\<lambda>n. if n < 4 then Inl OtherOSError else Inr [1, 2, 3])\<rparr>"



definition ev_upper :: event where
  "ev_upper = \<lparr>is_directory = False, src_path = str ''/renamescans/waves/SCAN2.PNG''\<rparr>"







section \<open>Properties of the parser\<close>

lemma upper_not_digit: "is_upper c \<Longrightarrow> \<not> is_decimal_digit c"
  by (simp add: is_decimal_digit_def is_upper_def unicode_Nd_def)

lemma P_not_digit: "\<not> is_decimal_digit 80"
  by (simp add: is_decimal_digit_def unicode_Nd_def)

lemma ascii_digit_decimal: "is_ascii_digit c \<Longrightarrow> is_decimal_digit c"
  by (simp add: is_decimal_digit_def is_ascii_digit_def unicode_Nd_def)


lemma po_token_iff:
  "po_token dig m \<longleftrightarrow>
     (\<exists>u d. m = u @ [80, 79] @ d \<and> (\<forall>c \<in> set u. is_upper c) \<and> d \<noteq> [] \<and> (\<forall>c \<in> set d. dig c))"
proof
  assume "po_token dig m"
  then obtain k where k: "k < length m" "list_all is_upper (take k m)"
      "take 2 (drop k m) = [80, 79]" "drop (k + 2) m \<noteq> []" "list_all dig (drop (k + 2) m)"
    by (auto simp: po_token_def)
  have a: "take k m @ drop k m = m" by (rule append_take_drop_id)
  have b: "take 2 (drop k m) @ drop 2 (drop k m) = drop k m" by (rule append_take_drop_id)
  have c: "drop 2 (drop k m) = drop (k + 2) m" by (simp add: add.commute)
  have "m = take k m @ [80, 79] @ drop (k + 2) m"
    using a b c k(3) by metis
  with k(2,4,5) show "\<exists>u d. m = u @ [80, 79] @ d \<and> (\<forall>c \<in> set u. is_upper c) \<and> d \<noteq> [] \<and> (\<forall>c \<in> set d. dig c)"
    unfolding list_all_iff by blast
next
  assume "\<exists>u d. m = u @ [80, 79] @ d \<and> (\<forall>c \<in> set u. is_upper c) \<and> d \<noteq> [] \<and> (\<forall>c \<in> set d. dig c)"
  then obtain u d where m: "m = u @ [80, 79] @ d" and u: "\<forall>c \<in> set u. is_upper c"
    and d: "d \<noteq> []" "\<forall>c \<in> set d. dig c" by blast
  have 1: "length u < length m" using m by simp
  have 2: "list_all is_upper (take (length u) m)" using m u by (simp add: list_all_iff)
  have 3: "take 2 (drop (length u) m) = [80, 79]" using m by simp
  have 4: "drop (length u + 2) m = d" using m by simp
  have "length u \<in> set [0..<length m]" using 1 by simp
  then show "po_token dig m"
    unfolding po_token_def using 2 3 4 d by (intro bexI[of _ "length u"]) (simp_all add: list_all_iff)
qed

lemma match_PO_digits_Some:
  "match_PO_digits s = Some m \<longleftrightarrow>
     (\<exists>rest. s = 80 # 79 # rest \<and> takeWhile is_decimal_digit rest \<noteq> [] \<and>
             m = [80, 79] @ takeWhile is_decimal_digit rest)"
  by (cases s; simp add: match_PO_digits_def match_digits_def Let_def split: list.splits) (metis)

lemma match_PO_digits_None_hd:
  "c \<noteq> 80 \<Longrightarrow> match_PO_digits (c # t) = None"
  by (simp add: match_PO_digits_def split: list.splits)

lemma upper_run_bound:
  assumes "i < length s" "\<not> is_upper (s ! i)"
  shows "length (takeWhile is_upper s) \<le> i"
proof (rule ccontr)
  assume "\<not> length (takeWhile is_upper s) \<le> i"
  then have lt: "i < length (takeWhile is_upper s)" by simp
  then have "takeWhile is_upper s ! i = s ! i" by (rule takeWhile_nth)
  moreover have "takeWhile is_upper s ! i \<in> set (takeWhile is_upper s)" using lt by simp
  ultimately show False using assms(2) by (metis set_takeWhileD)
qed

lemma match_upper_back_complete:
  assumes s: "s = u @ 80 # 79 # d @ rest"
    and d: "d \<noteq> []" "\<forall>c \<in> set d. is_decimal_digit c"
    and j: "length u \<le> j" "j \<le> length (takeWhile is_upper s)"
  shows "match_upper_back j s = Some (u @ [80, 79] @ takeWhile is_decimal_digit (d @ rest))"
  using j
proof (induction j)
  case 0
  then have "u = []" by simp
  moreover have "takeWhile is_decimal_digit (d @ rest) \<noteq> []"
    using d by (cases d) auto
  ultimately show ?case using s by (simp add: match_PO_digits_Some)
next
  case (Suc j)
  obtain x d' where dx: "d = x # d'" using d(1) by (cases d) auto
  have xd: "is_decimal_digit x" using d(2) dx by simp
  have tw: "takeWhile is_decimal_digit (d @ rest) \<noteq> []" using dx xd by simp
  have "s ! (length u + 2) = x" using s dx by (simp add: nth_append)
  moreover have "length u + 2 < length s" using s dx by simp
  ultimately have L: "length (takeWhile is_upper s) \<le> length u + 2"
    using upper_run_bound[of "length u + 2" s] xd upper_not_digit by blast
  consider "Suc j = length u" | "Suc j = length u + 1" | "Suc j = length u + 2"
    using Suc.prems L by linarith
  then show ?case
  proof cases
    case 1
    then have dr: "drop (Suc j) s = 80 # 79 # d @ rest" and tk: "take (Suc j) s = u"
      using s by simp_all
    have "match_PO_digits (drop (Suc j) s) = Some ([80, 79] @ takeWhile is_decimal_digit (d @ rest))"
      unfolding dr using tw by (simp add: match_PO_digits_Some)
    then show ?thesis using tk by simp
  next
    case 2
    then have "drop (Suc j) s = 79 # d @ rest" using s by simp
    then have "match_PO_digits (drop (Suc j) s) = None"
      by (simp add: match_PO_digits_None_hd)
    moreover have "match_upper_back j s = Some (u @ [80, 79] @ takeWhile is_decimal_digit (d @ rest))"
      using Suc.IH Suc.prems 2 by simp
    ultimately show ?thesis by simp
  next
    case 3
    then have "drop (Suc j) s = x # d' @ rest" using s dx by simp
    moreover have "x \<noteq> 80" using xd P_not_digit by auto
    ultimately have "match_PO_digits (drop (Suc j) s) = None"
      by (simp add: match_PO_digits_None_hd)
    moreover have "match_upper_back j s = Some (u @ [80, 79] @ takeWhile is_decimal_digit (d @ rest))"
      using Suc.IH Suc.prems 3 by simp
    ultimately show ?thesis by simp
  qed
qed

lemma match_upper_back_sound:
  assumes "match_upper_back j s = Some m" "j \<le> length (takeWhile is_upper s)"
  shows "\<exists>k rest. k \<le> j \<and> s = take k s @ 80 # 79 # rest \<and>
           takeWhile is_decimal_digit rest \<noteq> [] \<and>
           m = take k s @ [80, 79] @ takeWhile is_decimal_digit rest"
  using assms
proof (induction j)
  case 0
  then show ?case by (auto simp: match_PO_digits_Some)
next
  case (Suc j)
  show ?case
  proof (cases "match_PO_digits (drop (Suc j) s)")
    case None
    then have "match_upper_back j s = Some m" using Suc.prems by simp
    then obtain k rest where "k \<le> j" "s = take k s @ 80 # 79 # rest"
        "takeWhile is_decimal_digit rest \<noteq> []"
        "m = take k s @ [80, 79] @ takeWhile is_decimal_digit rest"
      using Suc.IH Suc.prems by auto
    then show ?thesis by (metis le_Suc_eq)
  next
    case (Some m')
    then obtain rest where r: "drop (Suc j) s = 80 # 79 # rest"
        "takeWhile is_decimal_digit rest \<noteq> []" "m' = [80, 79] @ takeWhile is_decimal_digit rest"
      by (auto simp: match_PO_digits_Some)
    have "m = take (Suc j) s @ m'" using Some Suc.prems by simp
    moreover have "s = take (Suc j) s @ 80 # 79 # rest"
      using r(1) by (metis append_take_drop_id)
    ultimately show ?thesis using r by blast
  qed
qed

lemma filter_rev_upt_Nil:
  "filter P (rev [0..<k]) = [] \<longleftrightarrow> (\<forall>n < k. \<not> P n)"
  by (auto simp: filter_empty_conv)

lemma filter_rev_upt_Cons:
  "filter P (rev [0..<k]) = n # ns \<Longrightarrow> n < k \<and> P n \<and> (\<forall>n' < k. P n' \<longrightarrow> n' \<le> n)"
proof (induction k arbitrary: n ns)
  case 0
  then show ?case by simp
next
  case (Suc k)
  show ?case
  proof (cases "P k")
    case True
    then have "n = k" using Suc.prems by simp
    then show ?thesis using True by auto
  next
    case False
    then have "filter P (rev [0..<k]) = n # ns" using Suc.prems by simp
    then have "n < k \<and> P n \<and> (\<forall>n' < k. P n' \<longrightarrow> n' \<le> n)" by (rule Suc.IH)
    then show ?thesis using False by (auto simp: less_Suc_eq)
  qed
qed

lemma token_lengths_Nil:
  "token_lengths dig s = [] \<longleftrightarrow> (\<forall>m post. s = m @ post \<longrightarrow> \<not> po_token dig m)"
proof
  assume e: "token_lengths dig s = []"
  show "\<forall>m post. s = m @ post \<longrightarrow> \<not> po_token dig m"
  proof (intro allI impI)
    fix m post assume "s = m @ post"
    then have "length m < Suc (length s)" "take (length m) s = m" by simp_all
    then show "\<not> po_token dig m"
      using e unfolding token_lengths_def filter_rev_upt_Nil by metis
  qed
next
  assume a: "\<forall>m post. s = m @ post \<longrightarrow> \<not> po_token dig m"
  have "\<not> po_token dig (take n s)" for n
    using a by (metis append_take_drop_id)
  then show "token_lengths dig s = []"
    unfolding token_lengths_def filter_rev_upt_Nil by simp
qed

lemma token_lengths_Cons:
  assumes "token_lengths dig s = n # ns"
  shows "n \<le> length s \<and> po_token dig (take n s) \<and>
         (\<forall>m post. s = m @ post \<and> po_token dig m \<longrightarrow> length m \<le> n)"
proof -
  have f: "n < Suc (length s) \<and> po_token dig (take n s) \<and>
           (\<forall>n' < Suc (length s). po_token dig (take n' s) \<longrightarrow> n' \<le> n)"
    using assms unfolding token_lengths_def by (rule filter_rev_upt_Cons)
  have "length m \<le> n" if "s = m @ post" "po_token dig m" for m post
  proof -
    have "length m < Suc (length s)" "take (length m) s = m" using that(1) by simp_all
    then show ?thesis using f that(2) by metis
  qed
  then show ?thesis using f by auto
qed

lemma po_token_length: "po_token dig m \<Longrightarrow> 3 \<le> length m"
  by (auto simp: po_token_iff) (metis Suc_leI length_greater_0_conv not_less_eq_eq trans_le_add2)

lemma leftmost_match_None:
  "leftmost_match dig s = None \<longleftrightarrow> (\<forall>pre m post. s = pre @ m @ post \<longrightarrow> \<not> po_token dig m)"
proof (induction s)
  case Nil
  then show ?case using po_token_length[of dig "[]"] by auto
next
  case (Cons c cs)
  show ?case
  proof (cases "token_lengths dig (c # cs)")
    case Nil
    then have no0: "\<forall>m post. c # cs = m @ post \<longrightarrow> \<not> po_token dig m"
      by (simp add: token_lengths_Nil)
    have "leftmost_match dig (c # cs) = leftmost_match dig cs" using Nil by simp
    moreover have "(\<forall>pre m post. c # cs = pre @ m @ post \<longrightarrow> \<not> po_token dig m) \<longleftrightarrow>
                   (\<forall>pre m post. cs = pre @ m @ post \<longrightarrow> \<not> po_token dig m)"
    proof
      assume a: "\<forall>pre m post. c # cs = pre @ m @ post \<longrightarrow> \<not> po_token dig m"
      show "\<forall>pre m post. cs = pre @ m @ post \<longrightarrow> \<not> po_token dig m"
      proof (intro allI impI)
        fix pre m post assume "cs = pre @ m @ post"
        then have "c # cs = (c # pre) @ m @ post" by simp
        then show "\<not> po_token dig m" using a by blast
      qed
    next
      assume a: "\<forall>pre m post. cs = pre @ m @ post \<longrightarrow> \<not> po_token dig m"
      show "\<forall>pre m post. c # cs = pre @ m @ post \<longrightarrow> \<not> po_token dig m"
      proof (intro allI impI)
        fix pre m post assume e: "c # cs = pre @ m @ post"
        show "\<not> po_token dig m"
        proof (cases pre)
          case Nil
          then show ?thesis using e no0 by simp
        next
          case (Cons x pre')
          then have "cs = pre' @ m @ post" using e by simp
          then show ?thesis using a by blast
        qed
      qed
    qed
    ultimately show ?thesis using Cons.IH by simp
  next
    case (Cons n ns)
    then have "po_token dig (take n (c # cs))" using token_lengths_Cons by blast
    moreover have "c # cs = [] @ take n (c # cs) @ drop n (c # cs)" by simp
    ultimately have "\<not> (\<forall>pre m post. c # cs = pre @ m @ post \<longrightarrow> \<not> po_token dig m)" by blast
    then show ?thesis using Cons by simp
  qed
qed

lemma leftmost_match_Some:
  "leftmost_match dig s = Some m \<Longrightarrow>
     \<exists>pre post. s = pre @ m @ post \<and> po_token dig m \<and>
       (\<forall>pre' m' post'. s = pre' @ m' @ post' \<and> po_token dig m' \<longrightarrow>
          length pre < length pre' \<or> (length pre = length pre' \<and> length m' \<le> length m))"
proof (induction s)
  case Nil
  then show ?case by simp
next
  case (Cons c cs)
  show ?case
  proof (cases "token_lengths dig (c # cs)")
    case Nil
    then have no0: "\<forall>m post. c # cs = m @ post \<longrightarrow> \<not> po_token dig m"
      by (simp add: token_lengths_Nil)
    have "leftmost_match dig cs = Some m" using Nil Cons.prems by simp
    then obtain pre post where p: "cs = pre @ m @ post" "po_token dig m"
      and least: "\<forall>pre' m' post'. cs = pre' @ m' @ post' \<and> po_token dig m' \<longrightarrow>
          length pre < length pre' \<or> (length pre = length pre' \<and> length m' \<le> length m)"
      using Cons.IH by blast
    have "length (c # pre) < length pre' \<or> (length (c # pre) = length pre' \<and> length m' \<le> length m)"
      if e: "c # cs = pre' @ m' @ post'" and t: "po_token dig m'" for pre' m' post'
    proof (cases pre')
      case Nil
      then show ?thesis using e t no0 by simp
    next
      case (Cons x pre'')
      then have "cs = pre'' @ m' @ post'" using e by simp
      then have "length pre < length pre'' \<or> (length pre = length pre'' \<and> length m' \<le> length m)"
        using least t by blast
      then show ?thesis using Cons by auto
    qed
    moreover have "c # cs = (c # pre) @ m @ post" using p(1) by simp
    ultimately show ?thesis using p(2) by blast
  next
    case (Cons n ns)
    then have n: "n \<le> length (c # cs)" "po_token dig (take n (c # cs))"
      "\<forall>m post. c # cs = m @ post \<and> po_token dig m \<longrightarrow> length m \<le> n"
      using token_lengths_Cons by blast+
    have m: "m = take n (c # cs)" using Cons Cons.prems by simp
    then have lm: "length m = n" using n(1) by simp
    have "c # cs = [] @ m @ drop n (c # cs)" using m by simp
    moreover have "length ([]::nat list) < length pre' \<or>
        (length ([]::nat list) = length pre' \<and> length m' \<le> length m)"
      if e: "c # cs = pre' @ m' @ post'" and t: "po_token dig m'" for pre' m' post'
    proof (cases pre')
      case Nil
      then show ?thesis using e t n(3) lm by simp
    next
      case (Cons x pre'')
      then show ?thesis by simp
    qed
    ultimately show ?thesis using n(2) m by blast
  qed
qed

lemma upper_prefix_run:
  assumes "s = u @ t" "\<forall>c \<in> set u. is_upper c"
  shows "length u \<le> length (takeWhile is_upper s)"
  using assms by (simp add: takeWhile_append2)

lemma match_at_token_prefix:
  assumes "s = m' @ post'" "po_token is_decimal_digit m'"
  shows "\<exists>m. match_at s = Some m \<and> length m' \<le> length m"
proof -
  obtain u d where m': "m' = u @ [80, 79] @ d" and u: "\<forall>c \<in> set u. is_upper c"
    and d: "d \<noteq> []" "\<forall>c \<in> set d. is_decimal_digit c"
    using assms(2) unfolding po_token_iff by blast
  have s: "s = u @ 80 # 79 # d @ post'" using assms(1) m' by simp
  have "length u \<le> length (takeWhile is_upper s)"
    using s u by (simp add: takeWhile_append2)
  then have "match_at s = Some (u @ [80, 79] @ takeWhile is_decimal_digit (d @ post'))"
    unfolding match_at_def using match_upper_back_complete[OF s d] by simp
  moreover have "takeWhile is_decimal_digit (d @ post') = d @ takeWhile is_decimal_digit post'"
    using d(2) by (simp add: takeWhile_append2)
  ultimately show ?thesis using m' by simp
qed

lemma match_at_Some:
  assumes "match_at s = Some m"
  shows "\<exists>post. s = m @ post \<and> po_token is_decimal_digit m"
proof -
  obtain k rest where k: "k \<le> length (takeWhile is_upper s)"
      "s = take k s @ 80 # 79 # rest" "takeWhile is_decimal_digit rest \<noteq> []"
      "m = take k s @ [80, 79] @ takeWhile is_decimal_digit rest"
    using match_upper_back_sound[of "length (takeWhile is_upper s)" s m] assms
    unfolding match_at_def by auto
  have "take k (takeWhile is_upper s @ dropWhile is_upper s) =
        take k (takeWhile is_upper s) @ take (k - length (takeWhile is_upper s)) (dropWhile is_upper s)"
    by (rule take_append)
  then have "take k s = take k (takeWhile is_upper s)"
    using k(1) by simp
  then have up: "\<forall>c \<in> set (take k s). is_upper c"
    by (auto dest!: in_set_takeD set_takeWhileD)
  have dg: "\<forall>c \<in> set (takeWhile is_decimal_digit rest). is_decimal_digit c"
    by (auto dest: set_takeWhileD)
  have tok: "po_token is_decimal_digit m"
    unfolding po_token_iff using k(3,4) up dg by blast
  have "m @ dropWhile is_decimal_digit rest = take k s @ 80 # 79 # rest"
    using k(4) by simp
  with k(2) have "s = m @ dropWhile is_decimal_digit rest" by metis
  then show ?thesis using tok by blast
qed

lemma match_at_token_lengths:
  "match_at s = (case token_lengths is_decimal_digit s of n # _ \<Rightarrow> Some (take n s) | [] \<Rightarrow> None)"
proof (cases "token_lengths is_decimal_digit s")
  case Nil
  then have "\<forall>m post. s = m @ post \<longrightarrow> \<not> po_token is_decimal_digit m"
    by (simp add: token_lengths_Nil)
  then have "match_at s = None"
    using match_at_Some by (cases "match_at s") blast+
  then show ?thesis using Nil by simp
next
  case (Cons n ns)
  then have n: "n \<le> length s" "po_token is_decimal_digit (take n s)"
      "\<forall>m post. s = m @ post \<and> po_token is_decimal_digit m \<longrightarrow> length m \<le> n"
    using token_lengths_Cons by blast+
  have "s = take n s @ drop n s" by simp
  then obtain m where m: "match_at s = Some m" "length (take n s) \<le> length m"
    using match_at_token_prefix n(2) by blast
  then obtain post where p: "s = m @ post" "po_token is_decimal_digit m"
    using match_at_Some by blast
  then have "length m \<le> n" using n(3) by blast
  then have "length m = n" using m(2) n(1) by simp
  then have "take n s = m" using p(1) by simp
  then show ?thesis using Cons m(1) by simp
qed

lemma re_search_leftmost: "re_search s = leftmost_match is_decimal_digit s"
proof (induction s)
  case Nil
  show ?case by (simp add: match_at_def match_PO_digits_def)
next
  case (Cons c cs)
  then show ?case by (simp add: match_at_token_lengths split: list.splits)
qed

lemma po_token_cong:
  assumes "\<forall>c \<in> set m. dig c = dig' c"
  shows "po_token dig m = po_token dig' m"
proof -
  have "list_all dig (drop (k + 2) m) = list_all dig' (drop (k + 2) m)" for k
    using assms by (auto simp: list_all_iff dest: in_set_dropD)
  then show ?thesis unfolding po_token_def by simp
qed

lemma token_lengths_cong:
  assumes "\<forall>c \<in> set s. dig c = dig' c"
  shows "token_lengths dig s = token_lengths dig' s"
proof -
  have "po_token dig (take n s) = po_token dig' (take n s)" for n
    using assms by (intro po_token_cong) (auto dest: in_set_takeD)
  then show ?thesis unfolding token_lengths_def by simp
qed

lemma leftmost_match_cong:
  "\<forall>c \<in> set s. dig c = dig' c \<Longrightarrow> leftmost_match dig s = leftmost_match dig' s"
proof (induction s)
  case Nil
  show ?case by simp
next
  case (Cons c cs)
  have "token_lengths dig (c # cs) = token_lengths dig' (c # cs)"
    using Cons.prems by (rule token_lengths_cong)
  moreover have "leftmost_match dig cs = leftmost_match dig' cs"
    using Cons by simp
  ultimately show ?case by (simp split: list.splits)
qed

lemmas parser_eval = get_PO_number_from_text_def match_at_def match_PO_digits_def
  match_digits_def is_upper_def is_decimal_digit_def is_ascii_digit_def unicode_Nd_def str_def

lemma parser_example:
  "get_PO_number_from_text (str ''Ref: 99 APO1023 see PO55'') = Some (str ''APO1023'')"
  by (simp add: parser_eval)

text \<open>
  Claim C1, as the code has it. The parser returns the leftmost match of
  \<^verbatim>\<open>[A-Z]*PO\d+\<close>, where \<^verbatim>\<open>\d\<close> is any Unicode decimal digit: the match
  starts at the first offset where a token starts and is the longest token there; the parser
  returns \<^verbatim>\<open>None\<close> exactly when no substring of the text is such a token. On a text
  whose decimal digits are all ASCII this is the leftmost match of
  \<^verbatim>\<open>[A-Z]*PO[0-9]+\<close>, and \<^verbatim>\<open>"Ref: 99 APO1023 see PO55"\<close> gives
  \<^verbatim>\<open>"APO1023"\<close>.
\<close>

theorem get_PO_number_from_text_leftmost:
  "get_PO_number_from_text s = leftmost_match is_decimal_digit s \<and>
   ((\<forall>c \<in> set s. is_decimal_digit c \<longrightarrow> is_ascii_digit c) \<longrightarrow>
      get_PO_number_from_text s = spec_parser s) \<and>
   (get_PO_number_from_text s = None \<longleftrightarrow>
      (\<forall>pre m post. s = pre @ m @ post \<longrightarrow> \<not> po_token is_decimal_digit m)) \<and>
   (\<forall>m. get_PO_number_from_text s = Some m \<longrightarrow>
      (\<exists>pre post. s = pre @ m @ post \<and> po_token is_decimal_digit m \<and>
         (\<forall>pre' m' post'. s = pre' @ m' @ post' \<and> po_token is_decimal_digit m' \<longrightarrow>
            length pre < length pre' \<or> (length pre = length pre' \<and> length m' \<le> length m)))) \<and>
   get_PO_number_from_text (str ''Ref: 99 APO1023 see PO55'') = Some (str ''APO1023'')"
proof -
  have eq: "get_PO_number_from_text s = leftmost_match is_decimal_digit s"
    by (simp add: get_PO_number_from_text_def re_search_leftmost)
  have ascii: "get_PO_number_from_text s = spec_parser s"
    if a: "\<forall>c \<in> set s. is_decimal_digit c \<longrightarrow> is_ascii_digit c"
  proof -
    have "\<forall>c \<in> set s. is_decimal_digit c = is_ascii_digit c"
      using a ascii_digit_decimal by blast
    then have "leftmost_match is_decimal_digit s = leftmost_match is_ascii_digit s"
      by (rule leftmost_match_cong)
    then show ?thesis using eq by (simp add: spec_parser_def)
  qed
  have none: "get_PO_number_from_text s = None \<longleftrightarrow>
      (\<forall>pre m post. s = pre @ m @ post \<longrightarrow> \<not> po_token is_decimal_digit m)"
    unfolding eq by (rule leftmost_match_None)
  have some: "\<forall>m. get_PO_number_from_text s = Some m \<longrightarrow>
      (\<exists>pre post. s = pre @ m @ post \<and> po_token is_decimal_digit m \<and>
         (\<forall>pre' m' post'. s = pre' @ m' @ post' \<and> po_token is_decimal_digit m' \<longrightarrow>
            length pre < length pre' \<or> (length pre = length pre' \<and> length m' \<le> length m)))"
    unfolding eq using leftmost_match_Some by blast
  show ?thesis using eq ascii none some parser_example by blast
qed

theorem get_PO_number_from_text_leftmost_witness:
  "get_PO_number_from_text (str ''see PO55'') = Some (str ''PO55'') \<and>
   spec_parser (str ''see PO55'') = Some (str ''PO55'') \<and>
   (\<exists>pre post. str ''see PO55'' = pre @ str ''PO55'' @ post \<and>
      po_token is_decimal_digit (str ''PO55''))"
proof -
  have h: "\<forall>c \<in> set (str ''see PO55''). is_decimal_digit c \<longrightarrow> is_ascii_digit c"
    by (simp add: parser_eval)
  have v: "get_PO_number_from_text (str ''see PO55'') = Some (str ''PO55'')"
    by (simp add: parser_eval)
  show ?thesis
    using get_PO_number_from_text_leftmost [of "str ''see PO55''"] h v by auto
qed

text \<open>
  Claim C1 as stated fails on a digit outside ASCII: in \<^verbatim>\<open>"PO"\<close> followed by
  U+0661 (ARABIC-INDIC DIGIT ONE) no substring matches \<^verbatim>\<open>[A-Z]*PO[0-9]+\<close>, and the
  parser returns the whole text.
\<close>

theorem get_PO_number_from_text_ascii_digits_counterexample:
  "get_PO_number_from_text [80, 79, 1633] = Some [80, 79, 1633] \<and>
   spec_parser [80, 79, 1633] = None"
  by (simp add: parser_eval spec_parser_def token_lengths_def po_token_def atLeast0_lessThan_Suc)

section \<open>Properties of paths and names\<close>






section \<open>Properties of the extractor\<close>

lemma upt_5: "[0..<5] = [0, 1, 2, 3, 4::nat]"
  by (simp add: upt_rec)



lemma extract_never_raises:
  "\<exists>r w'. extract_po_number_from_image en p w = (Inr r, w')"
  by (simp add: extract_po_number_from_image_def split: prod.splits sum.splits)

lemma scanner_extract_never_raises:
  "\<exists>r w'. scanner_extract_po_number_from_image en p w = (Inr r, w')"
  by (simp add: scanner_extract_po_number_from_image_def split: prod.splits sum.splits)

lemma re_search_token: "re_search s = Some t \<Longrightarrow> po_token is_decimal_digit t"
  using leftmost_match_Some[of is_decimal_digit s t] by (auto simp: re_search_leftmost)

lemma re_search_PO_token: "re_search_PO s = Some t \<Longrightarrow> po_token is_decimal_digit t"
proof (induction s)
  case Nil
  then show ?case by (simp add: match_PO_digits_def)
next
  case (Cons c cs)
  show ?case
  proof (cases "match_PO_digits (c # cs)")
    case None
    then show ?thesis using Cons by simp
  next
    case (Some m)
    then have "t = m" using Cons.prems by simp
    then obtain rest where "takeWhile is_decimal_digit rest \<noteq> []"
        "t = [] @ [80, 79] @ takeWhile is_decimal_digit rest"
      using Some by (auto simp: match_PO_digits_Some)
    moreover have "\<forall>c \<in> set (takeWhile is_decimal_digit rest). is_decimal_digit c"
      by (auto dest: set_takeWhileD)
    ultimately show ?thesis unfolding po_token_iff by (metis empty_iff list.set(1))
  qed
qed

lemma extract_Some_token:
  "extract_po_number_from_image en p w = (Inr (Some t), w') \<Longrightarrow> po_token is_decimal_digit t"
  by (auto simp: extract_po_number_from_image_def extract_try_def Let_def re_search_token
           split: prod.splits sum.splits if_splits option.splits)

lemma scanner_extract_Some_token:
  "scanner_extract_po_number_from_image en p w = (Inr (Some t), w') \<Longrightarrow>
     po_token is_decimal_digit t"
  by (auto simp: scanner_extract_po_number_from_image_def scanner_extract_try_def Let_def
                 re_search_PO_token
           split: prod.splits sum.splits if_splits option.splits)

text \<open>
  Claim C9. Whatever the image library and the OCR engine do, the extractor of either variant
  returns: its result is \<^verbatim>\<open>None\<close> or a PO token, never an exception.
\<close>

theorem extract_po_number_from_image_total:
  "(\<exists>w'. extract_po_number_from_image en p w = (Inr None, w') \<or>
         (\<exists>t. extract_po_number_from_image en p w = (Inr (Some t), w') \<and>
              po_token is_decimal_digit t)) \<and>
   (\<exists>w'. scanner_extract_po_number_from_image en p w = (Inr None, w') \<or>
         (\<exists>t. scanner_extract_po_number_from_image en p w = (Inr (Some t), w') \<and>
              po_token is_decimal_digit t))"
proof -
  obtain r w' where a: "extract_po_number_from_image en p w = (Inr r, w')"
    using extract_never_raises by blast
  obtain r2 w2 where b: "scanner_extract_po_number_from_image en p w = (Inr r2, w2)"
    using scanner_extract_never_raises by blast
  have "r = None \<or> (\<exists>t. r = Some t \<and> po_token is_decimal_digit t)"
    using a extract_Some_token by (cases r) auto
  moreover have "r2 = None \<or> (\<exists>t. r2 = Some t \<and> po_token is_decimal_digit t)"
    using b scanner_extract_Some_token by (cases r2) auto
  ultimately show ?thesis using a b by auto
qed



lemma image_open_loop_loaded:
  assumes "\<forall>t \<in> set ts. \<exists>e. image_load en t = Inl e \<and> is_IOError e"
    and "image_load en k = Inr img"
  shows "\<exists>w'. image_open_loop en p n cur (ts @ k # rest) w = (Inr (k, Some img), w') \<and>
           image_opens w' = image_opens w + length ts + 1 \<and> ocr_calls w' = ocr_calls w"
  using assms(1)
proof (induction ts arbitrary: cur w)
  case Nil
  show ?case using assms(2) by (simp add: Let_def)
next
  case (Cons t ts)
  obtain e where e: "image_load en t = Inl e" "is_IOError e" using Cons.prems by auto
  let ?w1 = "sleep 1 (logging INFO (ImageLocked p (t + 1) n) (w\<lparr>image_opens := Suc (image_opens w)\<rparr>))"
  have step: "image_open_loop en p n cur ((t # ts) @ k # rest) w =
              image_open_loop en p n t (ts @ k # rest) ?w1"
    using e by (simp add: Let_def)
  have "\<forall>t \<in> set ts. \<exists>e. image_load en t = Inl e \<and> is_IOError e" using Cons.prems by simp
  then obtain w' where w': "image_open_loop en p n t (ts @ k # rest) ?w1 = (Inr (k, Some img), w')"
      "image_opens w' = image_opens ?w1 + length ts + 1" "ocr_calls w' = ocr_calls ?w1"
    using Cons.IH by blast
  show ?case using step w' by (simp add: sleep_def logging_def)
qed

lemma upt_5_split: "k < 5 \<Longrightarrow> [0..<5] = [0..<k] @ k # [Suc k..<5]"
  by (metis less_imp_le_nat upt_add_eq_append upt_conv_Cons le_add_diff_inverse plus_nat.add_0 zero_le)

lemma extract_loaded_early:
  assumes "\<forall>t < k. \<exists>e. image_load en t = Inl e \<and> is_IOError e"
    and "image_load en k = Inr img" "k < 4"
  shows "ocr_calls (snd (extract_po_number_from_image en p w)) = ocr_calls w @ [img] \<and>
         image_opens (snd (extract_po_number_from_image en p w)) = image_opens w + k + 1 \<and>
         fst (extract_po_number_from_image en p w) =
           Inr (case image_to_string en img of Inl e \<Rightarrow> None | Inr ocr_result \<Rightarrow> re_search ocr_result)"
proof -
  have "\<forall>t \<in> set [0..<k]. \<exists>e. image_load en t = Inl e \<and> is_IOError e"
    using assms(1) by simp
  then obtain w1 where w1: "image_open_loop en p 5 0 ([0..<k] @ k # [Suc k..<5]) w =
        (Inr (k, Some img), w1)"
      "image_opens w1 = image_opens w + length [0..<k] + 1" "ocr_calls w1 = ocr_calls w"
    using image_open_loop_loaded[OF _ assms(2), of "[0..<k]" p 5 0 "[Suc k..<5]" w] by blast
  have l: "image_open_loop en p 5 0 [0..<5] w = (Inr (k, Some img), w1)"
    using w1(1) upt_5_split[of k] assms(3) by simp
  have k4: "k \<noteq> 5 - 1" using assms(3) by simp
  show ?thesis
  proof (cases "image_to_string en img")
    case (Inl e)
    then show ?thesis
      using l k4 w1(2,3)
      by (simp add: extract_po_number_from_image_def extract_try_def Let_def logging_def)
  next
    case (Inr res)
    then show ?thesis
      using l k4 w1(2,3)
      by (simp add: extract_po_number_from_image_def extract_try_def Let_def logging_def)
  qed
qed

lemma extract_loaded_last:
  assumes "\<forall>t < 4. \<exists>e. image_load en t = Inl e \<and> is_IOError e"
    and "image_load en 4 = Inr img"
  shows "ocr_calls (snd (extract_po_number_from_image en p w)) = ocr_calls w \<and>
         image_opens (snd (extract_po_number_from_image en p w)) = image_opens w + 5 \<and>
         fst (extract_po_number_from_image en p w) = Inr None"
proof -
  have "\<forall>t \<in> set [0..<4]. \<exists>e. image_load en t = Inl e \<and> is_IOError e"
    using assms(1) by simp
  then obtain w1 where w1: "image_open_loop en p 5 0 ([0..<4] @ 4 # [Suc 4..<5]) w =
        (Inr (4, Some img), w1)"
      "image_opens w1 = image_opens w + length [0..<4] + 1" "ocr_calls w1 = ocr_calls w"
    using image_open_loop_loaded[OF _ assms(2), of "[0..<4]" p 5 0 "[Suc 4..<5]" w] by blast
  have l: "image_open_loop en p 5 0 [0..<5] w = (Inr (4, Some img), w1)"
    using w1(1) upt_5_split[of 4] by simp
  show ?thesis
    using l w1(2,3)
    by (simp add: extract_po_number_from_image_def extract_try_def Let_def logging_def)
qed

text \<open>
  Claim C4 fails where the image loads on the fifth and last attempt. When it loads on one of
  the first four attempts, the OCR engine is called once on it and the result comes from its
  text (\<open>extract_loaded_early\<close>). But the loop leaves \<open>tries\<close> at 4 whether the fifth
  attempt failed or succeeded, so after a success there the extractor reports the retries as
  used up and returns \<^verbatim>\<open>None\<close> without calling the OCR engine
  (\<open>extract_loaded_last\<close>), which in the run below would have read \<^verbatim>\<open>PO904821\<close>.
\<close>

theorem extract_skips_image_loaded_on_last_attempt:
  "image_load env_fifth 4 = Inr [1, 2, 3] \<and>
   image_to_string env_fifth [1, 2, 3] = Inr (str ''Invoice for PO904821'') \<and>
   fst (extract_po_number_from_image env_fifth scan_path w0) = Inr None \<and>
   ocr_calls (snd (extract_po_number_from_image env_fifth scan_path w0)) = [] \<and>
   image_opens (snd (extract_po_number_from_image env_fifth scan_path w0)) = 5 \<and>
   last (log (snd (extract_po_number_from_image env_fifth scan_path w0))) =
     (ERROR, MaxRetriesReached scan_path)"
  by (simp add: extract_po_number_from_image_def extract_try_def env_fifth_def env0_def w0_def
        upt_5 is_IOError_def sleep_def logging_def Let_def)

section \<open>Properties of the readiness gate\<close>


lemma wait_for_access_first:
  "open_append en (n + k) \<Longrightarrow> \<forall>j < k. \<not> open_append en (n + j) \<Longrightarrow>
     wait_for_access en p n w = Some (opened_for_append p ((access_retry p ^^ k) w))"
proof (induction k arbitrary: n w)
  case 0
  then show ?case by (simp add: wait_for_access.simps)
next
  case (Suc k)
  have "\<not> open_append en n" using Suc.prems(2)[rule_format, of 0] by simp
  then have "wait_for_access en p n w = wait_for_access en p (Suc n) (access_retry p w)"
    by (subst wait_for_access.simps) simp
  moreover have "open_append en (Suc n + k)" using Suc.prems(1) by simp
  moreover have "\<forall>j < k. \<not> open_append en (Suc n + j)"
    using Suc.prems(2) by (metis Suc_less_eq add_Suc_shift)
  ultimately show ?case
    using Suc.IH[of "Suc n" "access_retry p w"] by (simp add: funpow_swap1)
qed














lemma endswith_append: "endswith (s @ suffix) suffix"
  by (simp add: endswith_def)

lemma lower_append: "lower (a @ b) = lower a @ lower b"
  by (simp add: lower_def)

text \<open>
  Claim C10. A path whose last four characters are \<^verbatim>\<open>.png\<close> in any mix of upper and lower
  case passes the extension test, as the lowercase name does, and either handler hands it to
  the extraction and filing branch.
\<close>

theorem on_created_png_any_case:
  assumes "\<not> is_directory ev" "src_path ev = stem @ sfx" "lower sfx = str ''.png''"
  shows "endswith (lower (src_path ev)) (str ''.png'') \<and>
         endswith (lower (stem @ str ''.png'')) (str ''.png'') \<and>
         on_created en self ev w =
           map_option (process_image en self (src_path ev))
             (wait_for_access en (src_path ev) 0
                (sleep 3 (logging INFO (NewFileDetected (src_path ev)) w))) \<and>
         scanner_on_created en self ev w =
           map_option (scanner_process_image en self (src_path ev))
             (scanner_wait (src_path ev) (logging INFO (NewFileDetected (src_path ev)) w))"
proof -
  have "lower (src_path ev) = lower stem @ str ''.png''"
    using assms(2,3) by (simp add: lower_append)
  then have 1: "endswith (lower (src_path ev)) (str ''.png'')"
    by (simp add: endswith_append)
  have "lower (str ''.png'') = str ''.png''" by (simp add: lower_def str_def)
  then have 2: "endswith (lower (stem @ str ''.png'')) (str ''.png'')"
    by (simp add: lower_append endswith_append)
  have 3: "on_created en self ev w =
           map_option (process_image en self (src_path ev))
             (wait_for_access en (src_path ev) 0
                (sleep 3 (logging INFO (NewFileDetected (src_path ev)) w)))"
    using assms(1) 1 by (simp add: on_created_def Let_def split: option.splits)
  have 4: "scanner_on_created en self ev w =
           map_option (scanner_process_image en self (src_path ev))
             (scanner_wait (src_path ev) (logging INFO (NewFileDetected (src_path ev)) w))"
    using assms(1) 1 by (simp add: scanner_on_created_def Let_def split: option.splits)
  show ?thesis using 1 2 3 4 by blast
qed

theorem on_created_png_any_case_witness:
  "endswith (lower (src_path ev_upper)) (str ''.png'') \<and>
   on_created env0 h0 ev_upper w0 =
     map_option (process_image env0 h0 (src_path ev_upper))
       (wait_for_access env0 (src_path ev_upper) 0
          (sleep 3 (logging INFO (NewFileDetected (src_path ev_upper)) w0)))"
proof -
  have h: "\<not> is_directory ev_upper" by (simp add: ev_upper_def)
  have p: "src_path ev_upper = str ''/renamescans/waves/SCAN2'' @ str ''.PNG''"
    by (simp add: ev_upper_def str_def)
  have l: "lower (str ''.PNG'') = str ''.png''" by (simp add: lower_def str_def)
  show ?thesis
    using on_created_png_any_case [OF h p l, of env0 h0 w0] by simp
qed



section \<open>Properties of filing\<close>








lemma ensure_directory_ok:
  "makedirs_error en = None \<Longrightarrow> fst (ensure_directory en d m w) = Inr ()"
  by (simp add: ensure_directory_def makedirs_def)




















section \<open>Properties of the handlers\<close>











lemma wait_for_access_now:
  "open_append en n \<Longrightarrow> wait_for_access en p n w = Some (opened_for_append p w)"
  using wait_for_access_first[of en n 0 p w] by simp



















end
